theory Spec2Isabelle
  imports Complex_Main "HOL-Library.Multiset"
begin

section \<open>Next-word prediction: the text-to-tensor pipeline of the notebook\<close>

text \<open>
  The notebook prepares training data for a word-level classifier and maps the
  classifier's answer back to a word. Its cells call the Keras tokenizer,
  \<open>pad_sequences\<close>, \<open>to_categorical\<close> and \<open>np.argmax\<close>; these library functions are
  modelled here by what the library's code does with the arguments the notebook passes
  (default filters, lower-casing, no \<open>num_words\<close>, no \<open>oov_token\<close>,
  \<open>padding='pre'\<close>, default \<open>truncating='pre'\<close>, \<open>value=0\<close>).
  Text is a list of ASCII characters, Python integers are \<open>int\<close>, a dictionary is an
  association list in insertion order, and every exception is a value of \<open>py_error\<close>.
  The recurrent network itself is a parameter: a function from one input row to one
  row of class scores.
\<close>

subsection \<open>Errors and Python slicing\<close>

datatype py_error = ValueError | IndexError

text \<open>\<open>xs[k:]\<close>: a negative start counts from the end and is clipped at the front.\<close>

definition py_slice_from :: "int \<Rightarrow> 'a list \<Rightarrow> 'a list" where
  "py_slice_from k xs =
     (let n = int (length xs);
          start = (if k < 0 then max 0 (n + k) else min k n)
      in drop (nat start) xs)"

text \<open>Running a list of fallible steps: the first exception ends the run.\<close>

fun collect :: "('e + 'a) list \<Rightarrow> 'e + 'a list" where
  "collect [] = Inr []"
| "collect (r # rs) =
     (case r of
        Inl e \<Rightarrow> Inl e
      | Inr x \<Rightarrow> (case collect rs of Inl e \<Rightarrow> Inl e | Inr xs \<Rightarrow> Inr (x # xs)))"

text \<open>\<open>max(...)\<close> of a Python list raises \<open>ValueError\<close> on the empty list.\<close>

fun py_max :: "int list \<Rightarrow> py_error + int" where
  "py_max [] = Inl ValueError"
| "py_max (x # xs) = Inr (foldl max x xs)"

subsection \<open>The tokenizer\<close>

text \<open>
  The default filter characters of the tokenizer: the ASCII punctuation characters
  except the apostrophe, then tab and newline, given here by their codes.
\<close>

definition filters :: string where
  "filters =
     [CHR 0x21, CHR 0x22, CHR 0x23, CHR 0x24, CHR 0x25, CHR 0x26, CHR 0x28, CHR 0x29,
      CHR 0x2A, CHR 0x2B, CHR 0x2C, CHR 0x2D, CHR 0x2E, CHR 0x2F, CHR 0x3A, CHR 0x3B,
      CHR 0x3C, CHR 0x3D, CHR 0x3E, CHR 0x3F, CHR 0x40, CHR 0x5B, CHR 0x5C, CHR 0x5D,
      CHR 0x5E, CHR 0x5F, CHR 0x60, CHR 0x7B, CHR 0x7C, CHR 0x7D, CHR 0x7E, CHR 0x09,
      CHR 0x0A]"

definition lower_char :: "char \<Rightarrow> char" where
  "lower_char c =
     (let n = (of_char c :: nat)
      in if 65 \<le> n \<and> n \<le> 90 then char_of (n + 32) else c)"

definition lower :: "string \<Rightarrow> string" where
  "lower s = map lower_char s"

text \<open>\<open>s.split(sep)\<close> with an explicit separator: empty pieces are kept.\<close>

fun split_on :: "char \<Rightarrow> string \<Rightarrow> string list" where
  "split_on sep [] = [[]]"
| "split_on sep (c # cs) =
     (if c = sep then [] # split_on sep cs
      else (case split_on sep cs of
              [] \<Rightarrow> [[c]]
            | w # ws \<Rightarrow> (c # w) # ws))"

text \<open>
  \<open>text_to_word_sequence\<close>: lower-case, turn every filter character into a space,
  split at spaces, drop the empty pieces.
\<close>

definition text_to_word_sequence :: "string \<Rightarrow> string list" where
  "text_to_word_sequence input_text =
     (let input_text = lower input_text;
          input_text = map (\<lambda>c. if c \<in> set filters then CHR '' '' else c) input_text;
          seq = split_on CHR '' '' input_text
      in filter (\<lambda>i. i \<noteq> []) seq)"

record tokenizer =
  word_counts :: "(string \<times> int) list"
  word_index :: "(string \<times> int) list"

definition Tokenizer :: tokenizer where
  "Tokenizer = \<lparr>word_counts = [], word_index = []\<rparr>"

text \<open>
  \<open>word_counts[w] += 1\<close> for a known word, \<open>word_counts[w] = 1\<close> for a new one: a known
  key keeps its place, a new key goes to the end.
\<close>

fun count_word :: "(string \<times> int) list \<Rightarrow> string \<Rightarrow> (string \<times> int) list" where
  "count_word [] w = [(w, 1)]"
| "count_word ((v, c) # wcs) w =
     (if v = w then (v, c + 1) # wcs else (v, c) # count_word wcs w)"

text \<open>
  \<open>fit_on_texts\<close>: count the words of every text, sort the counted words by descending
  count (the sort is stable, so equal counts stay in order of first occurrence), and
  number the sorted words from 1.
\<close>

definition fit_on_texts :: "tokenizer \<Rightarrow> string list \<Rightarrow> tokenizer" where
  "fit_on_texts tok texts =
     (let wc = foldl (\<lambda>wc text. foldl count_word wc (text_to_word_sequence text))
                 (word_counts tok) texts;
          wcounts = sort_key (\<lambda>x. - snd x) wc;
          sorted_voc = map fst wcounts
      in \<lparr>word_counts = wc,
          word_index = zip sorted_voc [1 .. int (length sorted_voc)]\<rparr>)"

text \<open>\<open>texts_to_sequences\<close>: the ids of the known words of each text; unknown words are skipped.\<close>

definition texts_to_sequences :: "tokenizer \<Rightarrow> string list \<Rightarrow> int list list" where
  "texts_to_sequences tok texts =
     map (\<lambda>text. List.map_filter (map_of (word_index tok)) (text_to_word_sequence text)) texts"

definition total_words :: "tokenizer \<Rightarrow> int" where
  "total_words tok = int (length (word_index tok)) + 1"

subsection \<open>Creating input sequences\<close>

text \<open>The inner loop: \<open>token_list[:i+1]\<close> for \<open>i\<close> in \<open>range(1, len(token_list))\<close>.\<close>

definition n_gram_sequences :: "int list \<Rightarrow> int list list" where
  "n_gram_sequences token_list =
     map (\<lambda>i. take (i + 1) token_list) [1 ..< length token_list]"

definition input_sequences :: "tokenizer \<Rightarrow> string \<Rightarrow> int list list" where
  "input_sequences tok text =
     concat (map (\<lambda>line. n_gram_sequences (hd (texts_to_sequences tok [line])))
                 (split_on CHR 0x0A text))"

definition max_sequence_len :: "int list list \<Rightarrow> py_error + int" where
  "max_sequence_len seqs = py_max (map (\<lambda>x. int (length x)) seqs)"

subsection \<open>Padding\<close>

text \<open>
  One row of \<open>pad_sequences\<close>. An empty sequence leaves the row of zeros. Otherwise
  \<open>trunc = s[-maxlen:]\<close> is written into the last \<open>len(trunc)\<close> places of the row; when
  \<open>maxlen\<close> is 0 the slice \<open>s[-0:]\<close> is all of \<open>s\<close> and the row has no place for it:
  a single value is broadcast into the empty slot, anything longer raises.
\<close>

definition pad_row :: "int \<Rightarrow> int list \<Rightarrow> py_error + int list" where
  "pad_row maxlen s =
     (if s = [] then Inr (replicate (nat maxlen) 0)
      else
        let trunc = py_slice_from (- maxlen) s;
            slot = min (length trunc) (nat maxlen)
        in if length trunc = slot then Inr (replicate (nat maxlen - slot) 0 @ trunc)
           else if length trunc = 1 then Inr (replicate (nat maxlen) 0)
           else Inl ValueError)"

definition pad_sequences :: "int list list \<Rightarrow> int \<Rightarrow> py_error + int list list" where
  "pad_sequences sequences maxlen =
     (if maxlen < 0 then Inl ValueError
      else collect (map (pad_row maxlen) sequences))"

subsection \<open>Predictors and labels\<close>

text \<open>\<open>input_sequences[:, :-1]\<close> and \<open>input_sequences[:, -1]\<close>.\<close>

definition all_but_last_column :: "int list list \<Rightarrow> int list list" where
  "all_but_last_column rows = map butlast rows"

definition last_column :: "int list list \<Rightarrow> py_error + int list" where
  "last_column rows =
     collect (map (\<lambda>r. if r = [] then Inl IndexError else Inr (last r)) rows)"

text \<open>
  \<open>to_categorical\<close>: a row of \<open>num_classes\<close> zeros per label, with a 1 written at the
  label (a negative label counts from the end, a label out of range raises).
\<close>

definition one_hot :: "int \<Rightarrow> int \<Rightarrow> py_error + real list" where
  "one_hot num_classes y =
     (if - num_classes \<le> y \<and> y < num_classes
      then Inr ((replicate (nat num_classes) 0)
                  [nat (if y < 0 then y + num_classes else y) := 1])
      else Inl IndexError)"

definition to_categorical :: "int list \<Rightarrow> int \<Rightarrow> py_error + real list list" where
  "to_categorical y num_classes =
     (case (if num_classes = 0 then (case py_max y of Inl e \<Rightarrow> Inl e | Inr m \<Rightarrow> Inr (m + 1))
            else Inr num_classes) of
        Inl e \<Rightarrow> Inl e
      | Inr n \<Rightarrow> if n < 0 then Inl ValueError else collect (map (one_hot n) y))"

text \<open>Cells 5 to 13 in one function of the raw corpus: the predictors \<open>X\<close> and the labels \<open>y\<close>.\<close>

definition prepare :: "string \<Rightarrow> py_error + (int list list \<times> real list list)" where
  "prepare raw =
     (let text = lower raw;
          tok = fit_on_texts Tokenizer [text];
          seqs = input_sequences tok text
      in case max_sequence_len seqs of
           Inl e \<Rightarrow> Inl e
         | Inr W \<Rightarrow>
             (case pad_sequences seqs W of
                Inl e \<Rightarrow> Inl e
              | Inr padded \<Rightarrow>
                  (case last_column padded of
                     Inl e \<Rightarrow> Inl e
                   | Inr y \<Rightarrow>
                       (case to_categorical y (total_words tok) of
                          Inl e \<Rightarrow> Inl e
                        | Inr yc \<Rightarrow> Inr (all_but_last_column padded, yc)))))"

subsection \<open>Training and testing split\<close>

text \<open>
  Cell 15 calls \<open>train_test_split(X, y, test_size=0.2)\<close> of scikit-learn. The library
  computes \<open>n_test = ceil(test_size * n_samples)\<close> and \<open>n_train = n_samples - n_test\<close>, and
  raises when the training part would be empty. The product is taken here over the
  reals with \<open>test_size\<close> one fifth; the floating-point product of the library has
  the same ceiling for every number of samples below \<open>2 ^ 50\<close>.
\<close>

definition test_size :: real where
  "test_size = 1 / 5"

definition validate_shuffle_split :: "nat \<Rightarrow> py_error + (nat \<times> nat)" where
  "validate_shuffle_split n_samples =
     (let n_test = nat \<lceil>test_size * real n_samples\<rceil>;
          n_train = n_samples - n_test
      in if n_train = 0 then Inl ValueError else Inr (n_train, n_test))"

text \<open>
  The shuffle draws \<open>permutation = rng.permutation(n_samples)\<close> from the global random
  generator; the drawn permutation is a parameter here. The test indices are
  \<open>permutation[:n_test]\<close>, the training indices \<open>permutation[n_test:n_test + n_train]\<close>, and
  both arrays are indexed with them. Arrays of different length are refused. The
  result is \<open>X_train, X_test, y_train, y_test\<close>.
\<close>

definition train_test_split ::
  "nat list \<Rightarrow> 'a list \<Rightarrow> 'b list \<Rightarrow> py_error + ('a list \<times> 'a list \<times> 'b list \<times> 'b list)" where
  "train_test_split permutation X y =
     (if length X \<noteq> length y then Inl ValueError
      else case validate_shuffle_split (length X) of
             Inl e \<Rightarrow> Inl e
           | Inr (n_train, n_test) \<Rightarrow>
               let ind_test = take n_test permutation;
                   ind_train = take n_train (drop n_test permutation)
               in Inr (map ((!) X) ind_train, map ((!) X) ind_test,
                       map ((!) y) ind_train, map ((!) y) ind_test))"

text \<open>A corpus of one line of two words: it gives a single training example.\<close>

definition one_pair_corpus :: string where
  "one_pair_corpus = ''the king''"

text \<open>A corpus of one line of three words: it gives two training examples.\<close>

definition three_word_corpus :: string where
  "three_word_corpus = ''the king is''"

subsection \<open>Prediction\<close>

text \<open>
  \<open>np.argmax\<close> of one row: the first position of the largest score; an empty row
  raises.
\<close>

fun argmax_scan :: "nat \<Rightarrow> real \<Rightarrow> nat \<Rightarrow> real list \<Rightarrow> nat" where
  "argmax_scan best bv i [] = best"
| "argmax_scan best bv i (x # xs) =
     (if bv < x then argmax_scan i x (Suc i) xs else argmax_scan best bv (Suc i) xs)"

fun argmax :: "real list \<Rightarrow> py_error + int" where
  "argmax [] = Inl ValueError"
| "argmax (x # xs) = Inr (int (argmax_scan 0 x 1 xs))"

text \<open>
  The loop over \<open>tokenizer.word_index.items()\<close>: the first word whose index is the
  predicted one, \<open>None\<close> when the loop ends without one.
\<close>

fun lookup_word :: "(string \<times> int) list \<Rightarrow> int \<Rightarrow> string option" where
  "lookup_word [] predicted_word_index = None"
| "lookup_word ((word, index) # items) predicted_word_index =
     (if index = predicted_word_index then Some word
      else lookup_word items predicted_word_index)"

text \<open>
  The token list after the \<open>if\<close> of \<open>predict_next_word\<close>; its parameter
  \<open>max_sequence_len\<close> is written \<open>max_seq_len\<close> here and below.
\<close>

definition truncate_tokens :: "int \<Rightarrow> int list \<Rightarrow> int list" where
  "truncate_tokens max_seq_len token_list =
     (if int (length token_list) \<ge> max_seq_len
      then py_slice_from (- (max_seq_len - 1)) token_list
      else token_list)"

text \<open>The single row that \<open>predict_next_word\<close> hands to \<open>model.predict\<close>.\<close>

definition predictor_input :: "tokenizer \<Rightarrow> string \<Rightarrow> int \<Rightarrow> py_error + int list" where
  "predictor_input tok text max_seq_len =
     (let token_list = hd (texts_to_sequences tok [text]);
          token_list = truncate_tokens max_seq_len token_list
      in case pad_sequences [token_list] (max_seq_len - 1) of
           Inl e \<Rightarrow> Inl e
         | Inr rows \<Rightarrow> Inr (hd rows))"

definition predict_next_word ::
  "(int list \<Rightarrow> real list) \<Rightarrow> tokenizer \<Rightarrow> string \<Rightarrow> int \<Rightarrow> py_error + string option" where
  "predict_next_word model tok text max_seq_len =
     (case predictor_input tok text max_seq_len of
        Inl e \<Rightarrow> Inl e
      | Inr token_list \<Rightarrow>
          (case argmax (model token_list) of
             Inl e \<Rightarrow> Inl e
           | Inr predicted_word_index \<Rightarrow>
               Inr (lookup_word (word_index tok) predicted_word_index)))"

text \<open>A classifier that answers every input row with the same scores.\<close>

definition constant_model :: "real list \<Rightarrow> int list \<Rightarrow> real list" where
  "constant_model scores row = scores"

subsection \<open>A small corpus\<close>

text \<open>Two lines, six distinct words; used to run the pipeline on a concrete input.\<close>

definition two_line_corpus :: string where
  "two_line_corpus = ''The king is dead'' @ [CHR 0x0A] @ ''Long live the king''"

definition two_line_tokenizer :: tokenizer where
  "two_line_tokenizer = fit_on_texts Tokenizer [lower two_line_corpus]"



section \<open>General facts\<close>

lemma collect_map_Inr:
  "(\<And>x. x \<in> set xs \<Longrightarrow> f x = Inr (g x)) \<Longrightarrow> collect (map f xs) = Inr (map g xs)"
  by (induction xs) simp_all

lemma py_slice_from_neg:
  "0 < k \<Longrightarrow> py_slice_from (- k) xs = drop (length xs - nat k) xs"
  by (auto simp: py_slice_from_def Let_def max_def intro: arg_cong2 [where f = drop])

lemma last_take_nth:
  "0 < k \<Longrightarrow> k \<le> length xs \<Longrightarrow> last (take k xs) = xs ! (k - 1)"
proof -
  assume k: "0 < k" "k \<le> length xs"
  then have "take k xs \<noteq> []" by auto
  then have "last (take k xs) = take k xs ! (length (take k xs) - 1)"
    by (rule last_conv_nth)
  also have "\<dots> = xs ! (k - 1)" using k by (simp add: min_def)
  finally show ?thesis .
qed

lemma n_gram_sequences_prefixes:
  "n_gram_sequences token_list = map (\<lambda>k. take k token_list) [2 ..< Suc (length token_list)]"
proof -
  have "[2 ..< Suc (length token_list)] = map Suc [1 ..< length token_list]"
    by (simp add: map_Suc_upt numeral_2_eq_2)
  then show ?thesis
    by (simp add: n_gram_sequences_def o_def)
qed

lemma length_n_gram_sequences:
  "length (n_gram_sequences token_list) = length token_list - 1"
  by (simp add: n_gram_sequences_def)

lemma nth_n_gram_sequences:
  "j < length token_list - 1 \<Longrightarrow> n_gram_sequences token_list ! j = take (j + 2) token_list"
  by (simp add: n_gram_sequences_def)

lemma input_sequences_concat:
  "input_sequences tok text =
     concat (map (\<lambda>line. n_gram_sequences (hd (texts_to_sequences tok [line])))
       (split_on CHR 0x0A text))"
  by (simp add: input_sequences_def)

lemma py_max_Inr: "py_max xs = Inr m \<longleftrightarrow> xs \<noteq> [] \<and> m = Max (set xs)"
proof (cases xs)
  case Nil
  then show ?thesis by simp
next
  case (Cons x ys)
  have "(\<lambda>a b. max b a) = (max :: int \<Rightarrow> int \<Rightarrow> int)"
    by (simp add: fun_eq_iff max.commute)
  then have "foldl max x ys = fold max ys x"
    by (simp add: foldl_conv_fold)
  also have "\<dots> = Max (set (x # ys))"
    by (rule Max.set_eq_fold [symmetric])
  finally have "foldl max x ys = Max (set (x # ys))" .
  with Cons show ?thesis by auto
qed

lemma n_gram_sequences_member:
  "s \<in> set (n_gram_sequences t) \<Longrightarrow> \<exists>k. s = take k t \<and> 2 \<le> k \<and> k \<le> length t"
  by (auto simp: n_gram_sequences_def)

lemma input_sequences_member:
  assumes "s \<in> set (input_sequences tok text)"
  shows "\<exists>line k. line \<in> set (split_on CHR 0x0A text) \<and>
           s = take k (hd (texts_to_sequences tok [line])) \<and>
           2 \<le> k \<and> k \<le> length (hd (texts_to_sequences tok [line]))"
  using assms n_gram_sequences_member by (fastforce simp: input_sequences_def)

lemma input_sequences_length_ge_2:
  "s \<in> set (input_sequences tok text) \<Longrightarrow> 2 \<le> length s"
  by (drule input_sequences_member) auto

lemma max_sequence_len_bounds:
  assumes "max_sequence_len seqs = Inr W"
  shows "seqs \<noteq> []" and "\<And>s. s \<in> set seqs \<Longrightarrow> int (length s) \<le> W"
    and "\<exists>s \<in> set seqs. int (length s) = W"
proof -
  from assms have ne: "map (\<lambda>x. int (length x)) seqs \<noteq> []"
    and W: "W = Max (set (map (\<lambda>x. int (length x)) seqs))"
    by (simp_all add: max_sequence_len_def py_max_Inr)
  from ne show "seqs \<noteq> []" by simp
  show "int (length s) \<le> W" if "s \<in> set seqs" for s
    using that W by simp
  have "W \<in> set (map (\<lambda>x. int (length x)) seqs)"
    unfolding W using ne by (intro Max_in) simp_all
  then show "\<exists>s \<in> set seqs. int (length s) = W" by auto
qed

lemma max_sequence_len_ge_2:
  assumes "max_sequence_len (input_sequences tok text) = Inr W"
  shows "2 \<le> W"
proof -
  from max_sequence_len_bounds(3) [OF assms]
  obtain s where "s \<in> set (input_sequences tok text)" and "int (length s) = W"
    by blast
  then show ?thesis
    using input_sequences_length_ge_2 [of s tok "text"] by simp
qed

lemma truncate_tokens_long:
  assumes "2 \<le> W" and "W \<le> int (length token_list)"
  shows "truncate_tokens W token_list = drop (length token_list - nat (W - 1)) token_list"
    and "length (truncate_tokens W token_list) = nat (W - 1)"
proof -
  show eq: "truncate_tokens W token_list = drop (length token_list - nat (W - 1)) token_list"
    using assms py_slice_from_neg [of "W - 1" token_list] by (simp add: truncate_tokens_def)
  show "length (truncate_tokens W token_list) = nat (W - 1)"
    unfolding eq using assms by simp
qed

lemma truncate_tokens_short:
  "int (length token_list) < W \<Longrightarrow> truncate_tokens W token_list = token_list"
  by (simp add: truncate_tokens_def)

lemma pad_row_fits:
  assumes "int (length s) \<le> maxlen"
  shows "pad_row maxlen s = Inr (replicate (nat maxlen - length s) 0 @ s)"
proof (cases "s = []")
  case True
  then show ?thesis by (simp add: pad_row_def)
next
  case False
  then have pos: "0 < maxlen" using assms by (cases s) auto
  have "py_slice_from (- maxlen) s = s"
    using assms pos by (simp add: py_slice_from_neg)
  then show ?thesis
    using False assms by (simp add: pad_row_def Let_def min_def)
qed

lemma pad_sequences_fit:
  assumes "0 \<le> maxlen" and "\<And>s. s \<in> set seqs \<Longrightarrow> int (length s) \<le> maxlen"
  shows "pad_sequences seqs maxlen = Inr (map (\<lambda>s. replicate (nat maxlen - length s) 0 @ s) seqs)"
  using assms by (simp add: pad_sequences_def pad_row_fits collect_map_Inr)

lemma predictor_input_eq:
  assumes "2 \<le> W" and "token_list = hd (texts_to_sequences tok [text])"
  shows "predictor_input tok text W =
           Inr (if W \<le> int (length token_list)
                then drop (length token_list - nat (W - 1)) token_list
                else replicate (nat (W - 1) - length token_list) 0 @ token_list)"
proof (cases "W \<le> int (length token_list)")
  case True
  let ?t = "truncate_tokens W token_list"
  from truncate_tokens_long [OF assms(1) True]
  have t: "?t = drop (length token_list - nat (W - 1)) token_list" and l: "length ?t = nat (W - 1)"
    by simp_all
  have "pad_sequences [?t] (W - 1) = Inr [replicate (nat (W - 1) - length ?t) 0 @ ?t]"
    using assms(1) l pad_sequences_fit [of "W - 1" "[?t]"] by simp
  then show ?thesis
    using True t l assms(2) by (simp add: predictor_input_def)
next
  case False
  then have t: "truncate_tokens W token_list = token_list"
    by (simp add: truncate_tokens_short)
  have "pad_sequences [token_list] (W - 1)
          = Inr [replicate (nat (W - 1) - length token_list) 0 @ token_list]"
    using assms(1) False pad_sequences_fit [of "W - 1" "[token_list]"] by simp
  then show ?thesis
    using False t assms(2) by (simp add: predictor_input_def)
qed

lemma predictor_input_width:
  assumes "2 \<le> W"
  shows "\<exists>row. predictor_input tok text W = Inr row \<and> int (length row) = W - 1"
  using assms predictor_input_eq [OF assms refl, of tok "text"] by auto

lemma count_word_keys:
  "map fst (count_word wcs w) = (if w \<in> fst ` set wcs then map fst wcs else map fst wcs @ [w])"
  by (induction wcs w rule: count_word.induct) (auto simp: image_iff)

lemma foldl_count_word_keys:
  "distinct (map fst wcs) \<Longrightarrow>
     distinct (map fst (foldl count_word wcs ws)) \<and>
     fst ` set (foldl count_word wcs ws) = fst ` set wcs \<union> set ws"
proof (induction ws arbitrary: wcs)
  case Nil
  then show ?case by simp
next
  case (Cons w ws)
  have d: "distinct (map fst (count_word wcs w))"
    using Cons.prems by (simp add: count_word_keys)
  have "fst ` set (count_word wcs w) = insert w (fst ` set wcs)"
    using arg_cong [OF count_word_keys [of wcs w], of set] by (auto split: if_splits)
  with Cons.IH [OF d] show ?case by auto
qed

lemma fit_word_counts_keys:
  "distinct (map fst wcs) \<Longrightarrow>
     distinct (map fst (foldl (\<lambda>wc t. foldl count_word wc (text_to_word_sequence t)) wcs texts)) \<and>
     fst ` set (foldl (\<lambda>wc t. foldl count_word wc (text_to_word_sequence t)) wcs texts)
       = fst ` set wcs \<union> (\<Union>t \<in> set texts. set (text_to_word_sequence t))"
proof (induction texts arbitrary: wcs)
  case Nil
  then show ?case by simp
next
  case (Cons t texts)
  from foldl_count_word_keys [OF Cons.prems, of "text_to_word_sequence t"]
  have d: "distinct (map fst (foldl count_word wcs (text_to_word_sequence t)))"
    and k: "fst ` set (foldl count_word wcs (text_to_word_sequence t))
              = fst ` set wcs \<union> set (text_to_word_sequence t)"
    by simp_all
  from Cons.IH [OF d] k show ?case by auto
qed

lemma distinct_keys_sort_key:
  "distinct (map fst xs) \<Longrightarrow> distinct (map fst (sort_key f xs))"
  by (simp add: distinct_map)

lemma fit_on_texts_word_index:
  assumes wi_def: "wi = word_index (fit_on_texts Tokenizer texts)"
  shows "distinct (map fst wi)"
    and "fst ` set wi = (\<Union>t \<in> set texts. set (text_to_word_sequence t))"
    and "map snd wi = [1 .. int (length wi)]"
proof -
  let ?wc = "foldl (\<lambda>wc t. foldl count_word wc (text_to_word_sequence t)) [] texts"
  let ?voc = "map fst (sort_key (\<lambda>x. - snd x) ?wc)"
  have wi: "wi = zip ?voc [1 .. int (length ?voc)]"
    by (simp add: wi_def fit_on_texts_def Tokenizer_def Let_def)
  have len: "length [1 .. int (length ?voc)] = length ?voc"
    by simp
  have fst_wi: "map fst wi = ?voc" and snd_wi: "map snd wi = [1 .. int (length ?voc)]"
    unfolding wi using len by (simp_all del: length_upto)
  from fit_word_counts_keys [of "[]" texts]
  have d: "distinct (map fst ?wc)"
    and k: "fst ` set ?wc = (\<Union>t \<in> set texts. set (text_to_word_sequence t))"
    by simp_all
  show "distinct (map fst wi)"
    unfolding fst_wi using d by (rule distinct_keys_sort_key)
  have "set (map fst wi) = fst ` set ?wc"
    unfolding fst_wi by simp
  with k show "fst ` set wi = (\<Union>t \<in> set texts. set (text_to_word_sequence t))"
    by simp
  have "length wi = length ?voc"
    using arg_cong [OF fst_wi, of length] by simp
  with snd_wi show "map snd wi = [1 .. int (length wi)]"
    by simp
qed

lemma fit_on_texts_ids:
  assumes "(w, i) \<in> set (word_index (fit_on_texts Tokenizer texts))"
  shows "1 \<le> i" and "i \<le> int (length (word_index (fit_on_texts Tokenizer texts)))"
proof -
  let ?wi = "word_index (fit_on_texts Tokenizer texts)"
  from assms have "i \<in> set (map snd ?wi)" by force
  then have "i \<in> {1 .. int (length ?wi)}"
    using fit_on_texts_word_index(3) [OF refl, of texts] by simp
  then show "1 \<le> i" and "i \<le> int (length ?wi)" by simp_all
qed

lemma texts_to_sequences_ids:
  assumes "s \<in> set (texts_to_sequences tok texts)" and "i \<in> set s"
  shows "\<exists>w. (w, i) \<in> set (word_index tok)"
proof -
  from assms obtain t where "i \<in> set (List.map_filter (map_of (word_index tok)) (text_to_word_sequence t))"
    by (auto simp: texts_to_sequences_def)
  then obtain w where "map_of (word_index tok) w = Some i"
    by (auto simp: map_filter_def)
  then show ?thesis by (auto dest: map_of_SomeD)
qed

text \<open>
  C1. The sequence expander turns a line whose token list has length \<open>N \<ge> 2\<close> into
  exactly \<open>N - 1\<close> sequences, of lengths 2 to \<open>N\<close>; the sequence of length \<open>k\<close> is the
  first \<open>k\<close> token ids of the line, so its last element is the line's token at that
  position. A line with fewer than 2 tokens gives no sequence. The sequences of every
  line of the corpus are among the expander's output.
\<close>

theorem sequence_expander_prefixes:
  assumes "token_list = hd (texts_to_sequences tok [line])" and "N = length token_list"
  shows "(2 \<le> N \<longrightarrow>
            length (n_gram_sequences token_list) = N - 1 \<and>
            map length (n_gram_sequences token_list) = [2 ..< Suc N]) \<and>
         (2 \<le> k \<and> k \<le> N \<longrightarrow>
            n_gram_sequences token_list ! (k - 2) = take k token_list \<and>
            last (n_gram_sequences token_list ! (k - 2)) = token_list ! (k - 1)) \<and>
         (N < 2 \<longrightarrow> n_gram_sequences token_list = []) \<and>
         (line \<in> set (split_on CHR 0x0A text) \<longrightarrow>
            set (n_gram_sequences token_list) \<subseteq> set (input_sequences tok text))"
proof (intro conjI impI)
  assume "2 \<le> N"
  show "length (n_gram_sequences token_list) = N - 1"
    using assms by (simp add: length_n_gram_sequences)
  show "map length (n_gram_sequences token_list) = [2 ..< Suc N]"
  proof -
    have "map (\<lambda>k. length (take k token_list)) [2 ..< Suc N] = map (\<lambda>k. k) [2 ..< Suc N]"
      by (rule map_cong [OF refl]) (simp add: assms(2) del: upt_Suc)
    then show ?thesis
      by (simp add: n_gram_sequences_prefixes assms(2) o_def del: upt_Suc)
  qed
next
  assume k: "2 \<le> k \<and> k \<le> N"
  then have j: "k - 2 < length token_list - 1" and k2: "k - 2 + 2 = k"
    using assms by auto
  show "n_gram_sequences token_list ! (k - 2) = take k token_list"
    using nth_n_gram_sequences [OF j] k2 by simp
  then show "last (n_gram_sequences token_list ! (k - 2)) = token_list ! (k - 1)"
    using k assms last_take_nth [of k token_list] by simp
next
  assume "N < 2"
  then show "n_gram_sequences token_list = []"
    using assms by (simp add: n_gram_sequences_def)
next
  assume "line \<in> set (split_on CHR 0x0A text)"
  then show "set (n_gram_sequences token_list) \<subseteq> set (input_sequences tok text)"
    using assms by (auto simp: input_sequences_def)
qed

theorem sequence_expander_prefixes_witness:
  "[5, 6, 1, 2] = hd (texts_to_sequences two_line_tokenizer [''long live the king'']) \<and>
   (4::nat) = length [5, 6, 1, 2 :: int] \<and>
   ''long live the king'' \<in> set (split_on CHR 0x0A (lower two_line_corpus)) \<and>
   length (n_gram_sequences [5, 6, 1, 2]) = 3 \<and>
   map length (n_gram_sequences [5, 6, 1, 2]) = [2, 3, 4] \<and>
   n_gram_sequences [5, 6, 1, 2] ! 1 = [5, 6, 1] \<and>
   last (n_gram_sequences [5, 6, 1, 2] ! 1) = 1 \<and>
   set (n_gram_sequences [5, 6, 1, 2])
     \<subseteq> set (input_sequences two_line_tokenizer (lower two_line_corpus))"
proof -
  have h1: "[5, 6, 1, 2] = hd (texts_to_sequences two_line_tokenizer [''long live the king''])"
    by code_simp
  have h2: "(4::nat) = length [5, 6, 1, 2 :: int]"
    by simp
  have h3: "''long live the king'' \<in> set (split_on CHR 0x0A (lower two_line_corpus))"
    by code_simp
  have h4: "2 \<le> (4::nat)" and h5: "2 \<le> (3::nat) \<and> 3 \<le> (4::nat)"
    by simp_all
  have up: "[2 ..< Suc 4] = [2, 3, 4]"
    by code_simp
  note T = sequence_expander_prefixes [OF h1 h2, of 3 "lower two_line_corpus"]
  from T h4 have a: "length (n_gram_sequences [5, 6, 1, 2]) = 4 - 1"
    and b: "map length (n_gram_sequences [5, 6, 1, 2]) = [2 ..< Suc 4]"
    by blast+
  from T h5 have c: "n_gram_sequences [5, 6, 1, 2] ! (3 - 2) = take 3 [5, 6, 1, 2]"
    and d: "last (n_gram_sequences [5, 6, 1, 2] ! (3 - 2)) = [5, 6, 1, 2] ! (3 - 1)"
    by blast+
  from T h3 have e: "set (n_gram_sequences [5, 6, 1, 2])
       \<subseteq> set (input_sequences two_line_tokenizer (lower two_line_corpus))"
    by blast
  have c': "n_gram_sequences [5, 6, 1, 2] ! 1 = [5, 6, 1]"
    using c by (simp add: numeral_3_eq_3)
  have d': "last (n_gram_sequences [5, 6, 1, 2] ! 1) = 1"
    using d by (simp add: numeral_3_eq_3)
  show ?thesis
    using h1 h2 h3 a b c' d' e up by simp
qed

text \<open>
  The cut relies on \<open>W \<ge> 2\<close>, which every maximum training sequence length satisfies.
  For \<open>W = 1\<close> the slice is \<open>token_list[-0:]\<close>, the whole list, and a list of two ids then
  has no room in a row of width 0.
\<close>

lemma truncate_tokens_width_one:
  "truncate_tokens 1 [1, 2, 3] = [1, 2, 3]"
  by (simp add: truncate_tokens_def py_slice_from_def)

lemma predictor_input_width_one:
  "pad_sequences [truncate_tokens 1 [1, 2]] (1 - 1) = Inl ValueError"
  by (simp add: truncate_tokens_def py_slice_from_def pad_sequences_def pad_row_def)





lemma input_sequences_ids:
  assumes "s \<in> set (input_sequences tok corpus)" and "i \<in> set s"
  shows "\<exists>w. (w, i) \<in> set (word_index tok)"
proof -
  from input_sequences_member [OF assms(1)]
  obtain line k where s: "s = take k (hd (texts_to_sequences tok [line]))"
    by blast
  have "hd (texts_to_sequences tok [line]) \<in> set (texts_to_sequences tok [line])"
    by (simp add: texts_to_sequences_def)
  moreover have "i \<in> set (hd (texts_to_sequences tok [line]))"
    using assms(2) s by (auto dest: in_set_takeD)
  ultimately show ?thesis
    by (rule texts_to_sequences_ids)
qed

lemma input_sequences_positive:
  assumes "tok = fit_on_texts Tokenizer texts"
    and "s \<in> set (input_sequences tok corpus)" and "i \<in> set s"
  shows "1 \<le> i" and "i \<le> int (length (word_index tok))"
proof -
  from input_sequences_ids [OF assms(2,3)]
  obtain w where "(w, i) \<in> set (word_index (fit_on_texts Tokenizer texts))"
    unfolding assms(1) by blast
  from fit_on_texts_ids [OF this] show "1 \<le> i" and "i \<le> int (length (word_index tok))"
    unfolding assms(1) by simp_all
qed

lemma strip_leading_zeros:
  "(0::int) \<notin> set s \<Longrightarrow> dropWhile (\<lambda>x. x = 0) (replicate n 0 @ s) = s"
proof (induction n)
  case 0
  then show ?case by (cases s) auto
next
  case (Suc n)
  then show ?case by simp
qed

text \<open>
  C4. With \<open>W\<close> the maximum length over all expanded sequences, left-padding a sequence
  of length \<open>L \<le> W\<close> to width \<open>W\<close> gives \<open>W - L\<close> zeros followed by the sequence
  unchanged. Every expanded sequence is that short and holds no zero, so dropping the
  leading zeros of its padded row gives the sequence back: the padding sits only in
  front. The whole padded matrix is the list of these rows.
\<close>

theorem left_padding_round_trip:
  assumes tok: "tok = fit_on_texts Tokenizer texts"
    and W: "max_sequence_len (input_sequences tok corpus) = Inr W"
  shows "(int (length s) \<le> W \<longrightarrow>
            pad_row W s = Inr (replicate (nat W - length s) 0 @ s) \<and>
            (0 \<notin> set s \<longrightarrow> dropWhile (\<lambda>x. x = 0) (replicate (nat W - length s) 0 @ s) = s)) \<and>
         (s \<in> set (input_sequences tok corpus) \<longrightarrow>
            int (length s) \<le> W \<and> 0 \<notin> set s \<and>
            dropWhile (\<lambda>x. x = 0) (replicate (nat W - length s) 0 @ s) = s) \<and>
         pad_sequences (input_sequences tok corpus) W =
           Inr (map (\<lambda>s. replicate (nat W - length s) 0 @ s) (input_sequences tok corpus))"
proof (intro conjI impI)
  assume "int (length s) \<le> W"
  then show "pad_row W s = Inr (replicate (nat W - length s) 0 @ s)"
    by (rule pad_row_fits)
next
  assume "0 \<notin> set s"
  then show "dropWhile (\<lambda>x. x = 0) (replicate (nat W - length s) 0 @ s) = s"
    by (rule strip_leading_zeros)
next
  assume s: "s \<in> set (input_sequences tok corpus)"
  show "int (length s) \<le> W"
    using max_sequence_len_bounds(2) [OF W s] .
  show nz: "0 \<notin> set s"
    using input_sequences_positive(1) [OF tok s] by force
  show "dropWhile (\<lambda>x. x = 0) (replicate (nat W - length s) 0 @ s) = s"
    using nz by (rule strip_leading_zeros)
next
  have "0 \<le> W"
    using max_sequence_len_ge_2 [OF W] by simp
  then show "pad_sequences (input_sequences tok corpus) W =
      Inr (map (\<lambda>s. replicate (nat W - length s) 0 @ s) (input_sequences tok corpus))"
    using max_sequence_len_bounds(2) [OF W] by (rule pad_sequences_fit)
qed

theorem left_padding_round_trip_witness:
  "two_line_tokenizer = fit_on_texts Tokenizer [lower two_line_corpus] \<and>
   max_sequence_len (input_sequences two_line_tokenizer (lower two_line_corpus)) = Inr 4 \<and>
   [5, 6] \<in> set (input_sequences two_line_tokenizer (lower two_line_corpus)) \<and>
   pad_row 4 [5, 6] = Inr [0, 0, 5, 6] \<and>
   dropWhile (\<lambda>x. x = 0) [0, 0, 5, 6 :: int] = [5, 6] \<and>
   pad_sequences (input_sequences two_line_tokenizer (lower two_line_corpus)) 4 =
     Inr [[0, 0, 1, 2], [0, 1, 2, 3], [1, 2, 3, 4], [0, 0, 5, 6], [0, 5, 6, 1], [5, 6, 1, 2]]"
proof -
  have h1: "two_line_tokenizer = fit_on_texts Tokenizer [lower two_line_corpus]"
    by (rule two_line_tokenizer_def)
  have h2: "max_sequence_len (input_sequences two_line_tokenizer (lower two_line_corpus)) = Inr 4"
    by code_simp
  have seqs: "input_sequences two_line_tokenizer (lower two_line_corpus)
                = [[1, 2], [1, 2, 3], [1, 2, 3, 4], [5, 6], [5, 6, 1], [5, 6, 1, 2]]"
    by code_simp
  have h3: "[5, 6] \<in> set (input_sequences two_line_tokenizer (lower two_line_corpus))"
    unfolding seqs by simp
  have h4: "int (length [5, 6 :: int]) \<le> 4"
    by simp
  have r: "replicate (nat 4 - length [5, 6 :: int]) (0::int) @ [5, 6] = [0, 0, 5, 6]"
    by code_simp
  note T = left_padding_round_trip [OF h1 h2, of "[5, 6]"]
  from T h4 have a: "pad_row 4 [5, 6] = Inr (replicate (nat 4 - length [5, 6 :: int]) 0 @ [5, 6])"
    by blast
  from T h3 have b: "dropWhile (\<lambda>x. x = 0) (replicate (nat 4 - length [5, 6 :: int]) 0 @ [5, 6])
                       = [5, 6 :: int]"
    by blast
  from T have c: "pad_sequences (input_sequences two_line_tokenizer (lower two_line_corpus)) 4 =
           Inr (map (\<lambda>s. replicate (nat 4 - length s) 0 @ s)
                  (input_sequences two_line_tokenizer (lower two_line_corpus)))"
    by blast
  have m: "map (\<lambda>s. replicate (nat 4 - length s) (0::int) @ s)
             [[1, 2], [1, 2, 3], [1, 2, 3, 4], [5, 6], [5, 6, 1], [5, 6, 1, 2]]
           = [[0, 0, 1, 2], [0, 1, 2, 3], [1, 2, 3, 4], [0, 0, 5, 6], [0, 5, 6, 1], [5, 6, 1, 2]]"
    by code_simp
  have c': "pad_sequences (input_sequences two_line_tokenizer (lower two_line_corpus)) 4 =
     Inr [[0, 0, 1, 2], [0, 1, 2, 3], [1, 2, 3, 4], [0, 0, 5, 6], [0, 5, 6, 1], [5, 6, 1, 2]]"
    using c m unfolding seqs by simp
  have a': "pad_row 4 [5, 6] = Inr [0, 0, 5, 6]"
    using a r by simp
  have b': "dropWhile (\<lambda>x. x = 0) [0, 0, 5, 6 :: int] = [5, 6]"
    using b r by simp
  from h1 h2 h3 a' b' c' show ?thesis
    by blast
qed

lemma word_index_bijection:
  assumes d: "distinct (map fst wi)" and s: "map snd wi = [1 .. int (length wi)]"
  shows "bij_betw (\<lambda>w. the (map_of wi w)) (fst ` set wi) {1 .. int (length wi)}"
proof -
  let ?f = "\<lambda>w. the (map_of wi w)"
  have val: "?f (fst p) = snd p" if "p \<in> set wi" for p
  proof -
    have "(fst p, snd p) \<in> set wi" using that by simp
    with d have "map_of wi (fst p) = Some (snd p)" by (rule map_of_is_SomeI)
    then show ?thesis by simp
  qed
  have "distinct (map snd wi)"
    unfolding s by simp
  then have inj_snd: "inj_on snd (set wi)"
    by (simp add: distinct_map)
  have inj: "inj_on ?f (fst ` set wi)"
  proof (rule inj_onI)
    fix a b assume "a \<in> fst ` set wi" "b \<in> fst ` set wi" and eq: "?f a = ?f b"
    then obtain p q where p: "p \<in> set wi" "a = fst p" and q: "q \<in> set wi" "b = fst q"
      by blast
    with eq val have "snd p = snd q" by simp
    with inj_snd p q have "p = q" by (auto dest: inj_onD)
    with p q show "a = b" by simp
  qed
  have "?f ` fst ` set wi = snd ` set wi"
    using val by (force simp: image_iff)
  also have "\<dots> = set (map snd wi)" by simp
  also have "\<dots> = {1 .. int (length wi)}" unfolding s by simp
  finally have img: "?f ` fst ` set wi = {1 .. int (length wi)}" .
  from inj img show ?thesis
    by (simp add: bij_betw_def)
qed

text \<open>
  C6. The vocabulary builder's mapping is a bijection from the distinct words of the
  corpus to the ids 1 to the number of distinct words: no word occurs twice among the
  keys, the keys are exactly the words of the corpus, every id is positive, id 0 is
  assigned to no word, and \<open>total_words\<close> is the size of the mapping plus 1.
\<close>

theorem vocabulary_builder_bijection:
  assumes tok: "tok = fit_on_texts Tokenizer [text]"
    and words: "words = set (text_to_word_sequence text)"
  shows "distinct (map fst (word_index tok)) \<and>
         fst ` set (word_index tok) = words \<and>
         map snd (word_index tok) = [1 .. int (card words)] \<and>
         bij_betw (\<lambda>w. the (map_of (word_index tok) w)) words {1 .. int (card words)} \<and>
         ((w, i) \<in> set (word_index tok) \<longrightarrow> 0 < i \<and> map_of (word_index tok) w = Some i) \<and>
         0 \<notin> snd ` set (word_index tok) \<and>
         total_words tok = int (length (word_index tok)) + 1 \<and>
         total_words tok = int (card words) + 1"
proof -
  let ?wi = "word_index tok"
  note F = fit_on_texts_word_index [OF tok [THEN arg_cong, of word_index]]
  have d: "distinct (map fst ?wi)"
    using F(1) .
  have k: "fst ` set ?wi = words"
    using F(2) words by simp
  have "card words = card (set (map fst ?wi))"
    using k by simp
  also have "\<dots> = length ?wi"
    using d distinct_card [of "map fst ?wi"] by simp
  finally have c: "card words = length ?wi" .
  have s: "map snd ?wi = [1 .. int (card words)]"
    using F(3) c by simp
  have b: "bij_betw (\<lambda>w. the (map_of ?wi w)) words {1 .. int (card words)}"
    using word_index_bijection [OF d F(3)] k c by simp
  have p: "(w, i) \<in> set ?wi \<longrightarrow> 0 < i \<and> map_of ?wi w = Some i"
    using fit_on_texts_ids(1) [of w i "[text]"] d tok by auto
  have z: "0 \<notin> snd ` set ?wi"
  proof
    assume "0 \<in> snd ` set ?wi"
    then have "(0::int) \<in> set (map snd ?wi)" by simp
    then show False unfolding F(3) by simp
  qed
  have t: "total_words tok = int (length ?wi) + 1"
    by (simp add: total_words_def)
  from d k s b p z t c show ?thesis by simp
qed

theorem vocabulary_builder_bijection_witness:
  "two_line_tokenizer = fit_on_texts Tokenizer [lower two_line_corpus] \<and>
   set (text_to_word_sequence (lower two_line_corpus))
     = {''the'', ''king'', ''is'', ''dead'', ''long'', ''live''} \<and>
   word_index two_line_tokenizer =
     [(''the'', 1), (''king'', 2), (''is'', 3), (''dead'', 4), (''long'', 5), (''live'', 6)] \<and>
   (''king'', 2) \<in> set (word_index two_line_tokenizer) \<and>
   map_of (word_index two_line_tokenizer) ''king'' = Some 2 \<and>
   bij_betw (\<lambda>w. the (map_of (word_index two_line_tokenizer) w))
     {''the'', ''king'', ''is'', ''dead'', ''long'', ''live''} {1 .. 6} \<and>
   total_words two_line_tokenizer = 7"
proof -
  let ?words = "{''the'', ''king'', ''is'', ''dead'', ''long'', ''live''}"
  have h1: "two_line_tokenizer = fit_on_texts Tokenizer [lower two_line_corpus]"
    by (rule two_line_tokenizer_def)
  have h2: "?words = set (text_to_word_sequence (lower two_line_corpus))"
    by code_simp
  have wi: "word_index two_line_tokenizer =
     [(''the'', 1), (''king'', 2), (''is'', 3), (''dead'', 4), (''long'', 5), (''live'', 6)]"
    by code_simp
  have h3: "(''king'', 2) \<in> set (word_index two_line_tokenizer)"
    unfolding wi by simp
  have c: "int (card ?words) = 6"
    by simp
  note T = vocabulary_builder_bijection [OF h1 h2, of "''king''" 2]
  from T h3 have a: "map_of (word_index two_line_tokenizer) ''king'' = Some 2"
    by blast
  from T have b: "bij_betw (\<lambda>w. the (map_of (word_index two_line_tokenizer) w))
                    ?words {1 .. int (card ?words)}"
    by blast
  from T have t: "total_words two_line_tokenizer = int (card ?words) + 1"
    by blast
  from b c have b': "bij_betw (\<lambda>w. the (map_of (word_index two_line_tokenizer) w)) ?words {1 .. 6}"
    by simp
  from t c have t': "total_words two_line_tokenizer = 7"
    by simp
  from h1 h2 [symmetric] wi h3 a b' t' show ?thesis
    by blast
qed

lemma argmax_scan_first_max:
  assumes "length pre = i" and "best < i" and "pre ! best = bv"
    and "\<forall>y \<in> set pre. y \<le> bv" and "\<forall>j < best. pre ! j < bv"
  shows "argmax_scan best bv i xs < length (pre @ xs) \<and>
         (\<forall>y \<in> set (pre @ xs). y \<le> (pre @ xs) ! argmax_scan best bv i xs) \<and>
         (\<forall>j < argmax_scan best bv i xs. (pre @ xs) ! j < (pre @ xs) ! argmax_scan best bv i xs)"
  using assms
proof (induction xs arbitrary: pre i best bv)
  case Nil
  then show ?case by auto
next
  case (Cons x xs)
  show ?case
  proof (cases "bv < x")
    case True
    have "argmax_scan i x (Suc i) xs < length ((pre @ [x]) @ xs) \<and>
         (\<forall>y \<in> set ((pre @ [x]) @ xs). y \<le> ((pre @ [x]) @ xs) ! argmax_scan i x (Suc i) xs) \<and>
         (\<forall>j < argmax_scan i x (Suc i) xs.
            ((pre @ [x]) @ xs) ! j < ((pre @ [x]) @ xs) ! argmax_scan i x (Suc i) xs)"
    proof (rule Cons.IH)
      show "length (pre @ [x]) = Suc i" using Cons.prems(1) by simp
      show "i < Suc i" by simp
      show "(pre @ [x]) ! i = x" using Cons.prems(1) by (auto simp: nth_append)
      show "\<forall>y \<in> set (pre @ [x]). y \<le> x" using Cons.prems(4) True by auto
      show "\<forall>j < i. (pre @ [x]) ! j < x"
      proof (intro allI impI)
        fix j assume "j < i"
        then have "(pre @ [x]) ! j = pre ! j" and "pre ! j \<in> set pre"
          using Cons.prems(1) by (simp_all add: nth_append)
        then show "(pre @ [x]) ! j < x" using Cons.prems(4) True by auto
      qed
    qed
    with True show ?thesis by simp
  next
    case False
    have "argmax_scan best bv (Suc i) xs < length ((pre @ [x]) @ xs) \<and>
         (\<forall>y \<in> set ((pre @ [x]) @ xs). y \<le> ((pre @ [x]) @ xs) ! argmax_scan best bv (Suc i) xs) \<and>
         (\<forall>j < argmax_scan best bv (Suc i) xs.
            ((pre @ [x]) @ xs) ! j < ((pre @ [x]) @ xs) ! argmax_scan best bv (Suc i) xs)"
    proof (rule Cons.IH)
      show "length (pre @ [x]) = Suc i" using Cons.prems(1) by simp
      show "best < Suc i" using Cons.prems(2) by simp
      show "(pre @ [x]) ! best = bv" using Cons.prems(1,2,3) by (simp add: nth_append)
      show "\<forall>y \<in> set (pre @ [x]). y \<le> bv" using Cons.prems(4) False by auto
      show "\<forall>j < best. (pre @ [x]) ! j < bv"
        using Cons.prems(1,2,5) by (simp add: nth_append)
    qed
    with False show ?thesis by simp
  qed
qed

lemma argmax_first_max:
  assumes "probs \<noteq> []"
  shows "\<exists>k. argmax probs = Inr (int k) \<and> k < length probs \<and>
           (\<forall>y \<in> set probs. y \<le> probs ! k) \<and> (\<forall>j < k. probs ! j < probs ! k)"
proof -
  from assms obtain x xs where p: "probs = x # xs" by (cases probs) auto
  from argmax_scan_first_max [of "[x]" 1 0 x xs]
  show ?thesis unfolding p by auto
qed

lemma lookup_word_None: "lookup_word items i = None \<longleftrightarrow> i \<notin> snd ` set items"
  by (induction items i rule: lookup_word.induct) auto

lemma lookup_word_Some:
  "distinct (map snd items) \<Longrightarrow> lookup_word items i = Some w \<longleftrightarrow> (w, i) \<in> set items"
  by (induction items i rule: lookup_word.induct) (auto simp: image_iff)

lemma fit_on_texts_lookup_word:
  assumes tok: "tok = fit_on_texts Tokenizer texts"
  shows "lookup_word (word_index tok) i = Some w \<longleftrightarrow> map_of (word_index tok) w = Some i"
proof -
  note F = fit_on_texts_word_index [OF tok [THEN arg_cong, of word_index]]
  have "distinct (map snd (word_index tok))"
    unfolding F(3) by simp
  then have "lookup_word (word_index tok) i = Some w \<longleftrightarrow> (w, i) \<in> set (word_index tok)"
    by (rule lookup_word_Some)
  also have "\<dots> \<longleftrightarrow> map_of (word_index tok) w = Some i"
    using F(1) by (auto dest: map_of_SomeD)
  finally show ?thesis .
qed

lemma fit_on_texts_lookup_zero:
  assumes tok: "tok = fit_on_texts Tokenizer texts"
  shows "lookup_word (word_index tok) 0 = None"
proof -
  have "0 \<notin> snd ` set (word_index tok)"
    using fit_on_texts_ids(1) [of _ 0 texts] tok by force
  then show ?thesis by (simp add: lookup_word_None)
qed

text \<open>
  C3. With a vocabulary built by the tokenizer, \<open>W\<close> the maximum training sequence
  length and a classifier that returns a non-empty row of scores, the predictor takes
  the first position \<open>k\<close> of the largest score (every earlier score is strictly
  smaller), looks \<open>k\<close> up in the vocabulary and returns the one word whose id is \<open>k\<close>;
  when no word has id \<open>k\<close>, as for \<open>k = 0\<close>, it returns \<open>None\<close> and raises nothing.
\<close>

theorem predictor_argmax_lookup:
  assumes tok: "tok = fit_on_texts Tokenizer texts"
    and W: "max_sequence_len (input_sequences tok corpus) = Inr W"
    and model: "\<forall>row. model row \<noteq> []"
  shows "\<exists>row k. predictor_input tok text W = Inr row \<and>
           argmax (model row) = Inr (int k) \<and> k < length (model row) \<and>
           (\<forall>y \<in> set (model row). y \<le> model row ! k) \<and>
           (\<forall>j < k. model row ! j < model row ! k) \<and>
           predict_next_word model tok text W = Inr (lookup_word (word_index tok) (int k)) \<and>
           (\<forall>w. lookup_word (word_index tok) (int k) = Some w
                  \<longleftrightarrow> map_of (word_index tok) w = Some (int k)) \<and>
           (lookup_word (word_index tok) (int k) = None
              \<longleftrightarrow> int k \<notin> snd ` set (word_index tok)) \<and>
           (k = 0 \<longrightarrow> predict_next_word model tok text W = Inr None)"
proof -
  have W2: "2 \<le> W"
    using W by (rule max_sequence_len_ge_2)
  from predictor_input_width [OF W2, of tok "text"]
  obtain row where row: "predictor_input tok text W = Inr row"
    by blast
  from model have "model row \<noteq> []" by simp
  from argmax_first_max [OF this]
  obtain k where k: "argmax (model row) = Inr (int k)" "k < length (model row)"
    "\<forall>y \<in> set (model row). y \<le> model row ! k" "\<forall>j < k. model row ! j < model row ! k"
    by blast
  have p: "predict_next_word model tok text W = Inr (lookup_word (word_index tok) (int k))"
    using row k(1) by (simp add: predict_next_word_def)
  have z: "k = 0 \<longrightarrow> predict_next_word model tok text W = Inr None"
    using p fit_on_texts_lookup_zero [OF tok] by simp
  have s: "\<forall>w. lookup_word (word_index tok) (int k) = Some w
                  \<longleftrightarrow> map_of (word_index tok) w = Some (int k)"
    using fit_on_texts_lookup_word [OF tok] by simp
  have n: "lookup_word (word_index tok) (int k) = None
              \<longleftrightarrow> int k \<notin> snd ` set (word_index tok)"
    by (rule lookup_word_None)
  show ?thesis
    by (rule exI [where x = row], rule exI [where x = k]) (intro conjI row k p s n z)
qed

theorem predictor_argmax_lookup_witness:
  "two_line_tokenizer = fit_on_texts Tokenizer [lower two_line_corpus] \<and>
   max_sequence_len (input_sequences two_line_tokenizer (lower two_line_corpus)) = Inr 4 \<and>
   (\<forall>row. constant_model [1/10, 1/5, 2/5, 2/5, 0, 0, 0] row \<noteq> []) \<and>
   predict_next_word (constant_model [1/10, 1/5, 2/5, 2/5, 0, 0, 0]) two_line_tokenizer
     ''Long live the'' 4 = Inr (Some ''king'')"
proof -
  let ?model = "constant_model [1/10, 1/5, 2/5, 2/5, 0, 0, 0]"
  have h1: "two_line_tokenizer = fit_on_texts Tokenizer [lower two_line_corpus]"
    by (rule two_line_tokenizer_def)
  have h2: "max_sequence_len (input_sequences two_line_tokenizer (lower two_line_corpus)) = Inr 4"
    by code_simp
  have h3: "\<forall>row. ?model row \<noteq> []"
    by (simp add: constant_model_def)
  from predictor_argmax_lookup [OF h1 h2 h3, of "''Long live the''"]
  obtain row k where a: "argmax (?model row) = Inr (int k)"
    and p: "predict_next_word ?model two_line_tokenizer ''Long live the'' 4
              = Inr (lookup_word (word_index two_line_tokenizer) (int k))"
    by blast
  have "argmax (?model row) = Inr 2"
    by (simp add: constant_model_def)
  with a have k: "int k = 2"
    by simp
  have "lookup_word (word_index two_line_tokenizer) 2 = Some ''king''"
    by code_simp
  with p k have "predict_next_word ?model two_line_tokenizer ''Long live the'' 4
                   = Inr (Some ''king'')"
    by simp
  with h1 h2 h3 show ?thesis
    by blast
qed

lemma no_known_word_no_token:
  assumes "set (text_to_word_sequence text) \<inter> fst ` set (word_index tok) = {}"
  shows "hd (texts_to_sequences tok [text]) = []"
proof -
  have "map_of (word_index tok) w = None" if "w \<in> set (text_to_word_sequence text)" for w
    using that assms by (auto simp: map_of_eq_None_iff)
  then have "filter (\<lambda>w. map_of (word_index tok) w \<noteq> None) (text_to_word_sequence text) = []"
    by (simp add: filter_empty_conv)
  then show ?thesis
    by (simp add: texts_to_sequences_def map_filter_def)
qed

text \<open>
  C7, as stated, fails. For an empty text, and for a text whose only word is unknown,
  the predictor asks the classifier about the all-zero row and returns the word of the
  classifier's best class: here \<open>the\<close>, not \<open>None\<close>.
\<close>

theorem empty_input_no_match_counterexample:
  "text_to_word_sequence [] = [] \<and>
   predict_next_word (constant_model [1/10, 2/5, 2/5, 0, 0, 0, 0]) two_line_tokenizer [] 4
     = Inr (Some ''the'') \<and>
   set (text_to_word_sequence ''queen'') \<inter> fst ` set (word_index two_line_tokenizer) = {} \<and>
   predict_next_word (constant_model [1/10, 2/5, 2/5, 0, 0, 0, 0]) two_line_tokenizer ''queen'' 4
     = Inr (Some ''the'')"
proof -
  let ?model = "constant_model [1/10, 2/5, 2/5, 0, 0, 0, 0]"
  have e: "text_to_word_sequence [] = []"
    by code_simp
  have o: "set (text_to_word_sequence ''queen'') \<inter> fst ` set (word_index two_line_tokenizer) = {}"
    by code_simp
  have r1: "predictor_input two_line_tokenizer [] 4 = Inr [0, 0, 0]"
    by code_simp
  have r2: "predictor_input two_line_tokenizer ''queen'' 4 = Inr [0, 0, 0]"
    by code_simp
  have a: "argmax (?model [0, 0, 0]) = Inr 1"
    by (simp add: constant_model_def)
  have l: "lookup_word (word_index two_line_tokenizer) 1 = Some ''the''"
    by code_simp
  have p1: "predict_next_word ?model two_line_tokenizer [] 4 = Inr (Some ''the'')"
    using r1 a l by (simp add: predict_next_word_def)
  have p2: "predict_next_word ?model two_line_tokenizer ''queen'' 4 = Inr (Some ''the'')"
    using r2 a l by (simp add: predict_next_word_def)
  from e o p1 p2 show ?thesis
    by blast
qed

text \<open>
  C7, amended. For a text that is empty or holds only words absent from the
  vocabulary, with \<open>W\<close> the maximum training sequence length and a classifier that
  answers the all-zero row with a non-empty row of scores, the predictor raises
  nothing: it hands the classifier the row of \<open>W - 1\<close> zeros and returns the vocabulary
  lookup of the best class \<open>k\<close> for that row, which is \<open>None\<close> exactly when no word has
  id \<open>k\<close>.
\<close>

theorem unknown_input_prediction:
  assumes W: "max_sequence_len (input_sequences tok corpus) = Inr W"
    and oov: "set (text_to_word_sequence text) \<inter> fst ` set (word_index tok) = {}"
    and model: "model (replicate (nat (W - 1)) 0) \<noteq> []"
  shows "\<exists>k. predictor_input tok text W = Inr (replicate (nat (W - 1)) 0) \<and>
           argmax (model (replicate (nat (W - 1)) 0)) = Inr (int k) \<and>
           k < length (model (replicate (nat (W - 1)) 0)) \<and>
           predict_next_word model tok text W = Inr (lookup_word (word_index tok) (int k)) \<and>
           (predict_next_word model tok text W = Inr None
              \<longleftrightarrow> int k \<notin> snd ` set (word_index tok))"
proof -
  have W2: "2 \<le> W"
    using W by (rule max_sequence_len_ge_2)
  have t: "[] = hd (texts_to_sequences tok [text])"
    using no_known_word_no_token [OF oov] by simp
  have row: "predictor_input tok text W = Inr (replicate (nat (W - 1)) 0)"
    using predictor_input_eq [OF W2 t] W2 by simp
  from argmax_first_max [OF model]
  obtain k where k: "argmax (model (replicate (nat (W - 1)) 0)) = Inr (int k)"
    "k < length (model (replicate (nat (W - 1)) 0))"
    by blast
  have p: "predict_next_word model tok text W = Inr (lookup_word (word_index tok) (int k))"
    using row k(1) by (simp add: predict_next_word_def)
  have n: "predict_next_word model tok text W = Inr None
              \<longleftrightarrow> int k \<notin> snd ` set (word_index tok)"
    using p lookup_word_None [of "word_index tok" "int k"] by simp
  show ?thesis
    by (rule exI [where x = k]) (intro conjI row k p n)
qed

theorem unknown_input_prediction_witness:
  "max_sequence_len (input_sequences two_line_tokenizer (lower two_line_corpus)) = Inr 4 \<and>
   set (text_to_word_sequence ''queen'') \<inter> fst ` set (word_index two_line_tokenizer) = {} \<and>
   constant_model [2/5, 1/5, 2/5, 0, 0, 0, 0] (replicate (nat (4 - 1)) 0) \<noteq> [] \<and>
   predictor_input two_line_tokenizer ''queen'' 4 = Inr [0, 0, 0] \<and>
   predict_next_word (constant_model [2/5, 1/5, 2/5, 0, 0, 0, 0]) two_line_tokenizer ''queen'' 4
     = Inr None"
proof -
  let ?model = "constant_model [2/5, 1/5, 2/5, 0, 0, 0, 0]"
  have h1: "max_sequence_len (input_sequences two_line_tokenizer (lower two_line_corpus)) = Inr 4"
    by code_simp
  have h2: "set (text_to_word_sequence ''queen'') \<inter> fst ` set (word_index two_line_tokenizer) = {}"
    by code_simp
  have h3: "?model (replicate (nat (4 - 1)) 0) \<noteq> []"
    by (simp add: constant_model_def)
  have r: "replicate (nat (4 - 1)) (0::int) = [0, 0, 0]"
    by code_simp
  from unknown_input_prediction [where model = ?model, OF h1 h2 h3]
  obtain k where row: "predictor_input two_line_tokenizer ''queen'' 4
                         = Inr (replicate (nat (4 - 1)) 0)"
    and a: "argmax (?model (replicate (nat (4 - 1)) 0)) = Inr (int k)"
    and p: "predict_next_word ?model two_line_tokenizer ''queen'' 4
              = Inr (lookup_word (word_index two_line_tokenizer) (int k))"
    by blast
  have "argmax (?model (replicate (nat (4 - 1)) 0)) = Inr 0"
    by (simp add: constant_model_def)
  with a have k: "int k = 0"
    by simp
  have "lookup_word (word_index two_line_tokenizer) 0 = None"
    by code_simp
  with p k have p': "predict_next_word ?model two_line_tokenizer ''queen'' 4 = Inr None"
    by simp
  from row r have row': "predictor_input two_line_tokenizer ''queen'' 4 = Inr [0, 0, 0]"
    by simp
  from h1 h2 h3 row' p' show ?thesis
    by blast
qed

lemma one_hot_in_range:
  assumes "0 \<le> y" and "y < n"
  shows "one_hot n y = Inr ((replicate (nat n) 0)[nat y := 1])"
  using assms by (simp add: one_hot_def)

lemma to_categorical_in_range:
  assumes "0 < n" and "\<And>l. l \<in> set y \<Longrightarrow> 0 \<le> l \<and> l < n"
  shows "to_categorical y n = Inr (map (\<lambda>l. (replicate (nat n) 0)[nat l := 1]) y)"
proof -
  have "collect (map (one_hot n) y) = Inr (map (\<lambda>l. (replicate (nat n) 0)[nat l := 1]) y)"
    using assms(2) by (intro collect_map_Inr one_hot_in_range) auto
  then show ?thesis
    using assms(1) by (simp add: to_categorical_def)
qed

lemma last_column_nonempty:
  assumes "\<And>r. r \<in> set rows \<Longrightarrow> r \<noteq> []"
  shows "last_column rows = Inr (map last rows)"
  unfolding last_column_def using assms by (intro collect_map_Inr) simp

lemma prepare_eq:
  assumes tok: "tok = fit_on_texts Tokenizer [lower raw]"
    and seqs: "seqs = input_sequences tok (lower raw)"
    and W: "max_sequence_len seqs = Inr W"
  shows "pad_sequences seqs W = Inr (map (\<lambda>s. replicate (nat W - length s) 0 @ s) seqs)"
    and "prepare raw =
           Inr (map (\<lambda>s. butlast (replicate (nat W - length s) 0 @ s)) seqs,
                map (\<lambda>s. (replicate (nat (total_words tok)) 0)[nat (last s) := 1]) seqs)"
proof -
  let ?pad = "\<lambda>s. replicate (nat W - length s) (0::int) @ s"
  have W0: "0 \<le> W"
    using max_sequence_len_ge_2 [OF W [unfolded seqs]] by simp
  show pad: "pad_sequences seqs W = Inr (map ?pad seqs)"
    using W0 max_sequence_len_bounds(2) [OF W] by (rule pad_sequences_fit)
  have ne: "s \<noteq> []" if "s \<in> set seqs" for s
    using input_sequences_length_ge_2 [of s tok "lower raw"] that seqs by auto
  have "last_column (map ?pad seqs) = Inr (map last (map ?pad seqs))"
    by (rule last_column_nonempty) (use ne in auto)
  also have "map last (map ?pad seqs) = map last seqs"
    using ne by simp
  finally have lc: "last_column (map ?pad seqs) = Inr (map last seqs)" .
  have tw: "0 < total_words tok"
    by (simp add: total_words_def)
  have lab: "0 \<le> l \<and> l < total_words tok" if "l \<in> set (map last seqs)" for l
  proof -
    from that obtain s where s: "s \<in> set seqs" and l: "l = last s" by auto
    then have "l \<in> set s" using ne by simp
    from input_sequences_positive [OF tok s [unfolded seqs] this]
    show ?thesis by (simp add: total_words_def)
  qed
  have tc: "to_categorical (map last seqs) (total_words tok)
              = Inr (map (\<lambda>l. (replicate (nat (total_words tok)) 0)[nat l := 1]) (map last seqs))"
    using tw lab by (rule to_categorical_in_range)
  show "prepare raw =
           Inr (map (\<lambda>s. butlast (?pad s)) seqs,
                map (\<lambda>s. (replicate (nat (total_words tok)) 0)[nat (last s) := 1]) seqs)"
    using W pad lc tc unfolding prepare_def tok [symmetric] Let_def seqs [symmetric]
    by (simp add: all_but_last_column_def o_def)
qed

lemma max_sequence_len_exists:
  "seqs \<noteq> [] \<Longrightarrow> \<exists>W. max_sequence_len seqs = Inr W"
  by (simp add: max_sequence_len_def py_max_Inr)

lemma fit_on_texts_size:
  assumes tok: "tok = fit_on_texts Tokenizer [text]"
  shows "length (word_index tok) = card (set (text_to_word_sequence text))"
proof -
  note F = fit_on_texts_word_index [OF tok [THEN arg_cong, of word_index]]
  have "card (set (text_to_word_sequence text)) = card (set (map fst (word_index tok)))"
    using F(2) by simp
  also have "\<dots> = length (word_index tok)"
    using F(1) distinct_card [of "map fst (word_index tok)"] by simp
  finally show ?thesis by simp
qed

lemma one_hot_row_nth:
  assumes "0 \<le> l" and "c < nat n"
  shows "(replicate (nat n) (0::real))[nat l := 1] ! c = (if int c = l then 1 else 0)"
proof -
  have "int c = l \<longleftrightarrow> nat l = c"
    using assms(1) by auto
  then show ?thesis
    using assms(2) by (simp add: nth_list_update)
qed

lemma prepare_row:
  assumes tok: "tok = fit_on_texts Tokenizer [lower raw]"
    and seqs: "seqs = input_sequences tok (lower raw)"
    and W: "max_sequence_len seqs = Inr W"
    and i: "i < length seqs"
  shows "seqs ! i \<noteq> []" and "int (length (seqs ! i)) \<le> W"
    and "1 \<le> last (seqs ! i)" and "last (seqs ! i) \<le> int (length (word_index tok))"
    and "\<exists>w. (w, last (seqs ! i)) \<in> set (word_index tok)"
proof -
  have mem: "seqs ! i \<in> set (input_sequences tok (lower raw))"
    using i seqs by simp
  show ne: "seqs ! i \<noteq> []"
    using input_sequences_length_ge_2 [OF mem] by auto
  show "int (length (seqs ! i)) \<le> W"
    using max_sequence_len_bounds(2) [OF W] i by simp
  have l: "last (seqs ! i) \<in> set (seqs ! i)"
    using ne by simp
  from input_sequences_positive [OF tok mem l]
  show "1 \<le> last (seqs ! i)" and "last (seqs ! i) \<le> int (length (word_index tok))"
    by simp_all
  from input_sequences_ids [OF mem l]
  show "\<exists>w. (w, last (seqs ! i)) \<in> set (word_index tok)" .
qed

text \<open>
  C5. When the corpus gives at least one sequence, the preparation returns predictors
  and labels row by row: row \<open>i\<close> of the padded matrix has width \<open>W\<close>, the predictor row is
  its first \<open>W - 1\<close> columns, the label is its last column, which is the last id of
  sequence \<open>i\<close>, and the label row is a vector of length \<open>total_words\<close> (the number of
  distinct words plus 1) with 1 at the label's id and 0 everywhere else.
\<close>

theorem predictors_and_labels:
  assumes tok: "tok = fit_on_texts Tokenizer [lower raw]"
    and seqs: "seqs = input_sequences tok (lower raw)"
    and ne: "seqs \<noteq> []"
    and i: "i < length seqs"
  shows "\<exists>W padded X y.
           max_sequence_len seqs = Inr W \<and> pad_sequences seqs W = Inr padded \<and>
           prepare raw = Inr (X, y) \<and>
           length padded = length seqs \<and> length X = length seqs \<and> length y = length seqs \<and>
           int (length (padded ! i)) = W \<and>
           X ! i = take (nat W - 1) (padded ! i) \<and>
           int (length (X ! i)) = W - 1 \<and>
           last (padded ! i) = last (seqs ! i) \<and>
           length (y ! i) = card (set (text_to_word_sequence (lower raw))) + 1 \<and>
           int (length (y ! i)) = total_words tok \<and>
           (\<forall>c < length (y ! i). y ! i ! c = (if int c = last (padded ! i) then 1 else 0))"
proof -
  from max_sequence_len_exists [OF ne] obtain W where W: "max_sequence_len seqs = Inr W"
    by blast
  let ?pad = "\<lambda>s. replicate (nat W - length s) (0::int) @ s"
  let ?padded = "map ?pad seqs"
  let ?X = "map (\<lambda>s. butlast (?pad s)) seqs"
  let ?y = "map (\<lambda>s. (replicate (nat (total_words tok)) (0::real))[nat (last s) := 1]) seqs"
  note P = prepare_eq [OF tok seqs W]
  note R = prepare_row [OF tok seqs W i]
  have W2: "2 \<le> W"
    using max_sequence_len_ge_2 [OF W [unfolded seqs]] .
  have pl: "length (?padded ! i) = nat W"
    using i R(2) by simp
  have 1: "int (length (?padded ! i)) = W"
    using pl W2 by simp
  have 2: "?X ! i = take (nat W - 1) (?padded ! i)"
    using i pl by (simp add: butlast_conv_take del: butlast_append)
  have 3: "int (length (?X ! i)) = W - 1"
    unfolding 2 using pl W2 by simp
  have 4: "last (?padded ! i) = last (seqs ! i)"
    using i R(1) by simp
  have yl: "length (?y ! i) = nat (total_words tok)"
    using i by simp
  have 5: "length (?y ! i) = card (set (text_to_word_sequence (lower raw))) + 1"
    using yl fit_on_texts_size [OF tok] by (simp add: total_words_def)
  have 6: "int (length (?y ! i)) = total_words tok"
    using yl by (simp add: total_words_def)
  have 7: "\<forall>c < length (?y ! i). ?y ! i ! c = (if int c = last (?padded ! i) then 1 else 0)"
  proof (intro allI impI)
    fix c assume "c < length (?y ! i)"
    then have c: "c < nat (total_words tok)" using yl by simp
    have "?y ! i ! c = (replicate (nat (total_words tok)) (0::real))[nat (last (seqs ! i)) := 1] ! c"
      using i by simp
    also have "\<dots> = (if int c = last (seqs ! i) then 1 else 0)"
      using R(3) c by (intro one_hot_row_nth) simp_all
    finally show "?y ! i ! c = (if int c = last (?padded ! i) then 1 else 0)"
      unfolding 4 .
  qed
  have 0: "length ?padded = length seqs" "length ?X = length seqs" "length ?y = length seqs"
    by simp_all
  show ?thesis
    apply (rule exI [where x = W], rule exI [where x = ?padded])
    apply (rule exI [where x = ?X], rule exI [where x = ?y])
    apply (intro conjI W P 0 1 2 3 4 5 6 7)
    done
qed

text \<open>
  C10. Every training label is an id of the vocabulary and never the padding value:
  the last element of every expanded sequence is the id of some word, hence positive;
  after padding it is the last column of the row, which is therefore not 0; and the
  one-hot label row has 0 at class 0 and its 1 at the label.
\<close>

theorem labels_are_vocabulary_ids:
  assumes tok: "tok = fit_on_texts Tokenizer [lower raw]"
    and seqs: "seqs = input_sequences tok (lower raw)"
    and ne: "seqs \<noteq> []"
    and i: "i < length seqs"
  shows "\<exists>W padded X y.
           max_sequence_len seqs = Inr W \<and> pad_sequences seqs W = Inr padded \<and>
           prepare raw = Inr (X, y) \<and>
           last (seqs ! i) \<in> snd ` set (word_index tok) \<and>
           0 < last (seqs ! i) \<and>
           last (padded ! i) = last (seqs ! i) \<and>
           last (padded ! i) \<noteq> 0 \<and>
           y ! i ! 0 = 0 \<and>
           y ! i ! nat (last (padded ! i)) = 1"
proof -
  from max_sequence_len_exists [OF ne] obtain W where W: "max_sequence_len seqs = Inr W"
    by blast
  let ?pad = "\<lambda>s. replicate (nat W - length s) (0::int) @ s"
  let ?padded = "map ?pad seqs"
  let ?X = "map (\<lambda>s. butlast (?pad s)) seqs"
  let ?y = "map (\<lambda>s. (replicate (nat (total_words tok)) (0::real))[nat (last s) := 1]) seqs"
  note P = prepare_eq [OF tok seqs W]
  note R = prepare_row [OF tok seqs W i]
  have 1: "last (seqs ! i) \<in> snd ` set (word_index tok)"
    using R(5) by force
  have 2: "0 < last (seqs ! i)"
    using R(3) by simp
  have 3: "last (?padded ! i) = last (seqs ! i)"
    using i R(1) by simp
  have 4: "last (?padded ! i) \<noteq> 0"
    unfolding 3 using 2 by simp
  have tw: "0 < nat (total_words tok)" "nat (last (seqs ! i)) < nat (total_words tok)"
    using R(3,4) by (simp_all add: total_words_def)
  have yi: "?y ! i = (replicate (nat (total_words tok)) (0::real))[nat (last (seqs ! i)) := 1]"
    using i by simp
  have 5: "?y ! i ! 0 = 0"
    unfolding yi using one_hot_row_nth [of "last (seqs ! i)" 0 "total_words tok"] R(3) tw(1)
    by simp
  have 6: "?y ! i ! nat (last (?padded ! i)) = 1"
    unfolding yi 3 using tw(2) by simp
  show ?thesis
    apply (rule exI [where x = W], rule exI [where x = ?padded])
    apply (rule exI [where x = ?X], rule exI [where x = ?y])
    apply (intro conjI W P 1 2 3 4 5 6)
    done
qed

theorem predictors_and_labels_witness:
  "two_line_tokenizer = fit_on_texts Tokenizer [lower two_line_corpus] \<and>
   input_sequences two_line_tokenizer (lower two_line_corpus)
     = [[1, 2], [1, 2, 3], [1, 2, 3, 4], [5, 6], [5, 6, 1], [5, 6, 1, 2]] \<and>
   (\<exists>X y. prepare two_line_corpus = Inr (X, y) \<and>
      X ! 3 = [0, 0, 5] \<and> length (y ! 3) = 7 \<and> y ! 3 ! 6 = 1 \<and> y ! 3 ! 5 = 0)"
proof -
  let ?seqs = "[[1, 2], [1, 2, 3], [1, 2, 3, 4], [5, 6], [5, 6, 1], [5, 6, 1, 2]] :: int list list"
  have h1: "two_line_tokenizer = fit_on_texts Tokenizer [lower two_line_corpus]"
    by (rule two_line_tokenizer_def)
  have h2: "?seqs = input_sequences two_line_tokenizer (lower two_line_corpus)"
    by code_simp
  have h3: "?seqs \<noteq> []"
    by simp
  have h4: "3 < length ?seqs"
    by simp
  have m: "max_sequence_len ?seqs = Inr 4"
    by code_simp
  have p: "pad_sequences ?seqs 4 =
      Inr [[0, 0, 1, 2], [0, 1, 2, 3], [1, 2, 3, 4], [0, 0, 5, 6], [0, 5, 6, 1], [5, 6, 1, 2]]"
    by code_simp
  have tw: "total_words two_line_tokenizer = 7"
    by code_simp
  from predictors_and_labels [OF h1 h2 h3 h4]
  obtain W padded X y where W: "max_sequence_len ?seqs = Inr W"
    and pd: "pad_sequences ?seqs W = Inr padded"
    and pr: "prepare two_line_corpus = Inr (X, y)"
    and x: "X ! 3 = take (nat W - 1) (padded ! 3)"
    and yl: "int (length (y ! 3)) = total_words two_line_tokenizer"
    and yc: "\<forall>c < length (y ! 3). y ! 3 ! c = (if int c = last (padded ! 3) then 1 else 0)"
    by blast
  from W m have W4: "W = 4"
    by simp
  from pd p W4 have padded:
    "padded = [[0, 0, 1, 2], [0, 1, 2, 3], [1, 2, 3, 4], [0, 0, 5, 6], [0, 5, 6, 1], [5, 6, 1, 2]]"
    by simp
  have row: "padded ! 3 = [0, 0, 5, 6]"
    unfolding padded by code_simp
  have a: "X ! 3 = [0, 0, 5]"
    unfolding x W4 row by code_simp
  have b: "length (y ! 3) = 7"
    using yl tw by simp
  from yc b have c6: "y ! 3 ! 6 = (if int 6 = last (padded ! 3) then 1 else 0)"
    and c5: "y ! 3 ! 5 = (if int 5 = last (padded ! 3) then 1 else 0)"
    by simp_all
  have c: "y ! 3 ! 6 = 1" and d: "y ! 3 ! 5 = 0"
    using c6 c5 unfolding row by simp_all
  from pr a b c d have "\<exists>X y. prepare two_line_corpus = Inr (X, y) \<and>
      X ! 3 = [0, 0, 5] \<and> length (y ! 3) = 7 \<and> y ! 3 ! 6 = 1 \<and> y ! 3 ! 5 = 0"
    by blast
  with h1 h2 [symmetric] show ?thesis
    by blast
qed

theorem labels_are_vocabulary_ids_witness:
  "two_line_tokenizer = fit_on_texts Tokenizer [lower two_line_corpus] \<and>
   input_sequences two_line_tokenizer (lower two_line_corpus)
     = [[1, 2], [1, 2, 3], [1, 2, 3, 4], [5, 6], [5, 6, 1], [5, 6, 1, 2]] \<and>
   (3::nat) < length [[1, 2], [1, 2, 3], [1, 2, 3, 4], [5, 6], [5, 6, 1], [5, 6, 1, 2 :: int]] \<and>
   (6::int) \<in> snd ` set (word_index two_line_tokenizer) \<and>
   (\<exists>padded X y.
      pad_sequences [[1, 2], [1, 2, 3], [1, 2, 3, 4], [5, 6], [5, 6, 1], [5, 6, 1, 2]] 4
        = Inr padded \<and>
      prepare two_line_corpus = Inr (X, y) \<and>
      last (padded ! 3) = 6 \<and> y ! 3 ! 0 = 0 \<and> y ! 3 ! 6 = 1)"
proof -
  let ?seqs = "[[1, 2], [1, 2, 3], [1, 2, 3, 4], [5, 6], [5, 6, 1], [5, 6, 1, 2]] :: int list list"
  have h1: "two_line_tokenizer = fit_on_texts Tokenizer [lower two_line_corpus]"
    by (rule two_line_tokenizer_def)
  have h2: "?seqs = input_sequences two_line_tokenizer (lower two_line_corpus)"
    by code_simp
  have h3: "?seqs \<noteq> []"
    by simp
  have h4: "3 < length ?seqs"
    by simp
  have m: "max_sequence_len ?seqs = Inr 4"
    by code_simp
  have l: "last (?seqs ! 3) = 6"
    by code_simp
  from labels_are_vocabulary_ids [OF h1 h2 h3 h4]
  obtain W padded X y where W: "max_sequence_len ?seqs = Inr W"
    and pd: "pad_sequences ?seqs W = Inr padded"
    and pr: "prepare two_line_corpus = Inr (X, y)"
    and v: "last (?seqs ! 3) \<in> snd ` set (word_index two_line_tokenizer)"
    and e: "last (padded ! 3) = last (?seqs ! 3)"
    and z: "y ! 3 ! 0 = 0"
    and o: "y ! 3 ! nat (last (padded ! 3)) = 1"
    by blast
  from W m have W4: "W = 4"
    by simp
  from e l have e': "last (padded ! 3) = 6"
    by simp
  from o e' have o': "y ! 3 ! 6 = 1"
    by simp
  from v l have v': "(6::int) \<in> snd ` set (word_index two_line_tokenizer)"
    by simp
  from pd W4 pr e' z o' have "\<exists>padded X y.
      pad_sequences ?seqs 4 = Inr padded \<and> prepare two_line_corpus = Inr (X, y) \<and>
      last (padded ! 3) = 6 \<and> y ! 3 ! 0 = 0 \<and> y ! 3 ! 6 = 1"
    by blast
  with h1 h2 [symmetric] h4 v' show ?thesis
    by blast
qed

lemma n_test_eq: "nat \<lceil>test_size * real n\<rceil> = (n + 4) div 5"
proof -
  have "test_size * real n = of_int (int n) / of_int 5"
    by (simp add: test_size_def)
  then have "\<lceil>test_size * real n\<rceil> = - (- int n div 5)"
    by (simp only: ceiling_divide_eq_div)
  also have "\<dots> = int ((n + 4) div 5)"
    by (simp add: zdiv_int)
  finally show ?thesis by simp
qed

lemma round_fifth: "round (real n / 5) = int ((2 * n + 5) div 10)"
proof -
  have eq: "real n / 5 + 1 / 2 = real (2 * n + 5) / real 10"
    by (simp add: field_simps)
  have "round (real n / 5) = \<lfloor>real n / 5 + 1 / 2\<rfloor>"
    by (simp only: round_def)
  also have "\<dots> = \<lfloor>real (2 * n + 5) / real 10\<rfloor>"
    by (simp only: eq)
  also have "\<dots> = int ((2 * n + 5) div 10)"
    by (rule floor_divide_of_nat_eq)
  finally show ?thesis .
qed

lemma n_test_near_round:
  "round (real n / 5) \<le> int (nat \<lceil>test_size * real n\<rceil>) \<and>
   int (nat \<lceil>test_size * real n\<rceil>) \<le> round (real n / 5) + 1"
proof -
  have "(2 * n + 5) div 10 \<le> (n + 4) div 5" and "(n + 4) div 5 \<le> (2 * n + 5) div 10 + 1"
    by linarith+
  then show ?thesis
    unfolding n_test_eq round_fifth by linarith
qed

lemma validate_shuffle_split_eq:
  "validate_shuffle_split n =
     (if n < 2 then Inl ValueError else Inr (n - (n + 4) div 5, (n + 4) div 5))"
proof -
  have "n - (n + 4) div 5 = 0 \<longleftrightarrow> n < 2"
    by linarith
  then show ?thesis
    by (simp add: validate_shuffle_split_def n_test_eq Let_def)
qed

lemma permutation_length:
  "mset permutation = mset [0 ..< n] \<Longrightarrow> length permutation = n"
  using mset_eq_length [of permutation "[0 ..< n]"] by simp

lemma split_indices:
  assumes "mset permutation = mset [0 ..< n]" and "n_test \<le> n"
  shows "take (n - n_test) (drop n_test permutation) = drop n_test permutation"
    and "mset (drop n_test permutation) + mset (take n_test permutation) = mset [0 ..< n]"
proof -
  have len: "length permutation = n"
    using assms(1) by (rule permutation_length)
  show "take (n - n_test) (drop n_test permutation) = drop n_test permutation"
    using len by simp
  have "mset (take n_test permutation) + mset (drop n_test permutation) = mset permutation"
    by (simp flip: mset_append)
  then have "mset (drop n_test permutation) + mset (take n_test permutation) = mset permutation"
    by (simp only: add.commute)
  also have "\<dots> = mset [0 ..< n]"
    by (rule assms(1))
  finally show "mset (drop n_test permutation) + mset (take n_test permutation) = mset [0 ..< n]" .
qed

lemma mset_indexed:
  assumes "mset is1 + mset is2 = mset [0 ..< length xs]"
  shows "mset (map ((!) xs) is1) + mset (map ((!) xs) is2) = mset xs"
proof -
  have "mset (map ((!) xs) is1) + mset (map ((!) xs) is2) = image_mset ((!) xs) (mset is1 + mset is2)"
    by simp
  also have "\<dots> = mset (map ((!) xs) [0 ..< length xs])"
    unfolding assms by simp
  also have "\<dots> = mset xs"
    by (simp only: map_nth)
  finally show ?thesis .
qed

lemma zip_indexed:
  assumes "set ixs \<subseteq> {..< length X}" and "length y = length X"
  shows "zip (map ((!) X) ixs) (map ((!) y) ixs) = map ((!) (zip X y)) ixs"
  using assms by (induction ixs) simp_all

lemma split_partition_facts:
  assumes perm: "mset permutation = mset [0 ..< length X]"
    and len: "length y = length X"
    and nt: "n_test \<le> length X"
  shows "length (take n_test permutation) = n_test"
    and "length (drop n_test permutation) = length X - n_test"
    and "distinct (take n_test permutation @ drop n_test permutation)"
    and "set (drop n_test permutation) \<inter> set (take n_test permutation) = {}"
    and "set (drop n_test permutation) \<union> set (take n_test permutation) = {..< length X}"
    and "mset (map ((!) X) (drop n_test permutation)) + mset (map ((!) X) (take n_test permutation))
           = mset X"
    and "mset (map ((!) y) (drop n_test permutation)) + mset (map ((!) y) (take n_test permutation))
           = mset y"
    and "mset (zip (map ((!) X) (drop n_test permutation)) (map ((!) y) (drop n_test permutation)))
           + mset (zip (map ((!) X) (take n_test permutation)) (map ((!) y) (take n_test permutation)))
           = mset (zip X y)"
proof -
  let ?it = "take n_test permutation"
  let ?itr = "drop n_test permutation"
  have plen: "length permutation = length X"
    using perm by (rule permutation_length)
  show "length ?it = n_test"
    using plen nt by simp
  show "length ?itr = length X - n_test"
    using plen by simp
  note S = split_indices [OF perm nt]
  have "distinct permutation"
    using perm mset_eq_imp_distinct_iff [of permutation "[0 ..< length X]"] by simp
  then show d: "distinct (?it @ ?itr)"
    by simp
  have "set ?it \<inter> set ?itr = {}"
    using d by (simp only: distinct_append)
  then show "set ?itr \<inter> set ?it = {}"
    by (simp only: Int_commute)
  have "set permutation = set [0 ..< length X]"
    using perm by (rule mset_eq_setD)
  then have sp: "set permutation = {..< length X}"
    by (simp only: set_upt atLeast0LessThan)
  have "set ?itr \<union> set ?it = set (?it @ ?itr)"
    by (simp only: set_append Un_commute)
  then show u: "set ?itr \<union> set ?it = {..< length X}"
    using sp by simp
  show "mset (map ((!) X) ?itr) + mset (map ((!) X) ?it) = mset X"
    using S(2) by (rule mset_indexed)
  have "mset ?itr + mset ?it = mset [0 ..< length y]"
    using S(2) len by simp
  then show "mset (map ((!) y) ?itr) + mset (map ((!) y) ?it) = mset y"
    by (rule mset_indexed)
  have S3: "mset ?itr + mset ?it = mset [0 ..< length (zip X y)]"
    using S(2) len by simp
  have sub: "set ?itr \<subseteq> {..< length X}" "set ?it \<subseteq> {..< length X}"
    using u by auto
  have "mset (zip (map ((!) X) ?itr) (map ((!) y) ?itr)) + mset (zip (map ((!) X) ?it) (map ((!) y) ?it))
          = mset (map ((!) (zip X y)) ?itr) + mset (map ((!) (zip X y)) ?it)"
    using zip_indexed [OF sub(1) len] zip_indexed [OF sub(2) len] by simp
  also have "\<dots> = mset (zip X y)"
    using S3 by (rule mset_indexed)
  finally show "mset (zip (map ((!) X) ?itr) (map ((!) y) ?itr))
                  + mset (zip (map ((!) X) ?it) (map ((!) y) ?it)) = mset (zip X y)" .
qed

text \<open>
  C8, amended. For every permutation the shuffle may draw and every set of \<open>N \<ge> 2\<close>
  examples, the split returns a training part and a test part: the test part has
  \<open>ceil(0.2 * N)\<close> examples, which is \<open>round(0.2 * N)\<close> or one more, the two sizes add up to
  \<open>N\<close>, neither part is empty, and the index lists of the two parts are disjoint and
  cover every position, so every example (predictor row with its label) is in exactly
  one part. With fewer than 2 examples the split raises.
\<close>

theorem train_test_split_partition:
  assumes perm: "mset permutation = mset [0 ..< length X]"
    and len: "length y = length X"
  shows "(length X < 2 \<longrightarrow> train_test_split permutation X y = Inl ValueError) \<and>
         (2 \<le> length X \<longrightarrow>
            (\<exists>X_train X_test y_train y_test ind_train ind_test.
               train_test_split permutation X y = Inr (X_train, X_test, y_train, y_test) \<and>
               length X_test = nat \<lceil>test_size * real (length X)\<rceil> \<and>
               round (real (length X) / 5) \<le> int (length X_test) \<and>
               int (length X_test) \<le> round (real (length X) / 5) + 1 \<and>
               length X_train + length X_test = length X \<and>
               length y_train = length X_train \<and> length y_test = length X_test \<and>
               0 < length X_train \<and> 0 < length X_test \<and>
               permutation = ind_test @ ind_train \<and>
               distinct (ind_test @ ind_train) \<and>
               set ind_train \<inter> set ind_test = {} \<and>
               set ind_train \<union> set ind_test = {..< length X} \<and>
               X_train = map ((!) X) ind_train \<and> X_test = map ((!) X) ind_test \<and>
               y_train = map ((!) y) ind_train \<and> y_test = map ((!) y) ind_test \<and>
               mset X_train + mset X_test = mset X \<and>
               mset y_train + mset y_test = mset y \<and>
               mset (zip X_train y_train) + mset (zip X_test y_test) = mset (zip X y)))"
proof (intro conjI impI)
  assume "length X < 2"
  then show "train_test_split permutation X y = Inl ValueError"
    using len by (simp add: train_test_split_def validate_shuffle_split_eq)
next
  assume N2: "2 \<le> length X"
  define nt where "nt = nat \<lceil>test_size * real (length X)\<rceil>"
  then have nt5: "nt = (length X + 4) div 5"
    by (simp only: n_test_eq)
  have nt: "nt \<le> length X" "0 < nt" "nt < length X"
    unfolding nt5 using N2 by linarith+
  define ind_test where "ind_test = take nt permutation"
  define ind_train where "ind_train = drop nt permutation"
  note F = split_partition_facts [OF perm len nt(1), folded ind_test_def ind_train_def]
  have v: "validate_shuffle_split (length X) = Inr (length X - nt, nt)"
    using N2 by (simp add: validate_shuffle_split_eq nt5)
  have tk: "take (length X - nt) (drop nt permutation) = ind_train"
    unfolding ind_train_def using split_indices(1) [OF perm nt(1)] .
  have r: "train_test_split permutation X y
             = Inr (map ((!) X) ind_train, map ((!) X) ind_test,
                    map ((!) y) ind_train, map ((!) y) ind_test)"
    using len by (simp add: train_test_split_def v Let_def tk ind_test_def)
  have 1: "length (map ((!) X) ind_test) = nat \<lceil>test_size * real (length X)\<rceil>"
    using F(1) by (simp only: length_map nt_def)
  have near: "round (real (length X) / 5) \<le> int nt" "int nt \<le> round (real (length X) / 5) + 1"
    unfolding nt_def using n_test_near_round [of "length X"] by blast+
  have 2: "round (real (length X) / 5) \<le> int (length (map ((!) X) ind_test))"
    "int (length (map ((!) X) ind_test)) \<le> round (real (length X) / 5) + 1"
    using near F(1) by (simp_all only: length_map)
  have 3: "length (map ((!) X) ind_train) + length (map ((!) X) ind_test) = length X"
    using F(1,2) nt(1) by simp
  have 4: "length (map ((!) y) ind_train) = length (map ((!) X) ind_train)"
    "length (map ((!) y) ind_test) = length (map ((!) X) ind_test)"
    by (simp_all only: length_map)
  have 5: "0 < length (map ((!) X) ind_train)" "0 < length (map ((!) X) ind_test)"
    using F(1,2) nt(2,3) by simp_all
  have 6: "permutation = ind_test @ ind_train"
    by (simp add: ind_test_def ind_train_def)
  show "\<exists>X_train X_test y_train y_test ind_train ind_test.
               train_test_split permutation X y = Inr (X_train, X_test, y_train, y_test) \<and>
               length X_test = nat \<lceil>test_size * real (length X)\<rceil> \<and>
               round (real (length X) / 5) \<le> int (length X_test) \<and>
               int (length X_test) \<le> round (real (length X) / 5) + 1 \<and>
               length X_train + length X_test = length X \<and>
               length y_train = length X_train \<and> length y_test = length X_test \<and>
               0 < length X_train \<and> 0 < length X_test \<and>
               permutation = ind_test @ ind_train \<and>
               distinct (ind_test @ ind_train) \<and>
               set ind_train \<inter> set ind_test = {} \<and>
               set ind_train \<union> set ind_test = {..< length X} \<and>
               X_train = map ((!) X) ind_train \<and> X_test = map ((!) X) ind_test \<and>
               y_train = map ((!) y) ind_train \<and> y_test = map ((!) y) ind_test \<and>
               mset X_train + mset X_test = mset X \<and>
               mset y_train + mset y_test = mset y \<and>
               mset (zip X_train y_train) + mset (zip X_test y_test) = mset (zip X y)"
    apply (rule exI [where x = "map ((!) X) ind_train"], rule exI [where x = "map ((!) X) ind_test"])
    apply (rule exI [where x = "map ((!) y) ind_train"], rule exI [where x = "map ((!) y) ind_test"])
    apply (rule exI [where x = ind_train], rule exI [where x = ind_test])
    apply (intro conjI)
    apply (rule r 1 2 3 4 5 6 F(3-8) refl)+
    done
qed

text \<open>
  C8, as stated, fails for a single example. The corpus \<open>the king\<close> gives one predictor
  row and one label; the test size is \<open>ceil(0.2) = 1\<close>, the training part would be empty,
  and the split raises instead of returning two parts.
\<close>

theorem split_single_example_counterexample:
  "prepare one_pair_corpus = Inr ([[1]], [[0, 0, 1]]) \<and>
   train_test_split [0] [[1 :: int]] [[0, 0, 1 :: real]] = Inl ValueError"
proof -
  have p: "prepare one_pair_corpus = Inr ([[1]], [[0, 0, 1]])"
    by code_simp
  have v: "validate_shuffle_split 1 = Inl ValueError"
    by (simp add: validate_shuffle_split_eq)
  have "train_test_split [0] [[1 :: int]] [[0, 0, 1 :: real]] = Inl ValueError"
    using v by (simp add: train_test_split_def)
  with p show ?thesis by simp
qed

theorem train_test_split_partition_witness:
  "prepare three_word_corpus = Inr ([[0, 1], [1, 2]], [[0, 0, 1, 0], [0, 0, 0, 1]]) \<and>
   mset [1, 0] = mset [0 ..< length [[0, 1], [1, 2 :: int]]] \<and>
   length [[0, 0, 1, 0], [0, 0, 0, 1 :: real]] = length [[0, 1], [1, 2 :: int]] \<and>
   (\<exists>X_train X_test y_train y_test.
      train_test_split [1, 0] [[0, 1], [1, 2 :: int]] [[0, 0, 1, 0], [0, 0, 0, 1 :: real]]
        = Inr (X_train, X_test, y_train, y_test) \<and>
      length X_test = 1 \<and> length X_train = 1 \<and>
      mset X_train + mset X_test = mset [[0, 1], [1, 2]])"
proof -
  let ?X = "[[0, 1], [1, 2]] :: int list list"
  let ?y = "[[0, 0, 1, 0], [0, 0, 0, 1]] :: real list list"
  have p: "prepare three_word_corpus = Inr (?X, ?y)"
    by code_simp
  have h1: "mset [1, 0] = mset [0 ..< length ?X]"
    by (simp add: upt_rec)
  have h2: "length ?y = length ?X"
    by simp
  have h3: "2 \<le> length ?X"
    by simp
  have "nat \<lceil>test_size * real (length ?X)\<rceil> = (length ?X + 4) div 5"
    by (rule n_test_eq)
  then have n: "nat \<lceil>test_size * real (length ?X)\<rceil> = 1"
    by simp
  from train_test_split_partition [OF h1 h2] h3
  obtain X_train X_test y_train y_test
    where r: "train_test_split [1, 0] ?X ?y = Inr (X_train, X_test, y_train, y_test)"
      and a: "length X_test = nat \<lceil>test_size * real (length ?X)\<rceil>"
      and b: "length X_train + length X_test = length ?X"
      and c: "mset X_train + mset X_test = mset ?X"
    by blast
  from a n have a': "length X_test = 1"
    by simp
  from b a' have b': "length X_train = 1"
    by simp
  from r a' b' c have "\<exists>X_train X_test y_train y_test.
      train_test_split [1, 0] ?X ?y = Inr (X_train, X_test, y_train, y_test) \<and>
      length X_test = 1 \<and> length X_train = 1 \<and> mset X_train + mset X_test = mset ?X"
    by blast
  with p h1 h2 show ?thesis
    by blast
qed

end
